theory Spec2Isabelle
  imports Main "HOL-Library.Multiset" "HOL-Library.AList"
begin

section \<open>Disk scheduling policies of \<^verbatim>\<open>src/app.py\<close>\<close>

text \<open>
  Cylinder numbers, the head position and the disk size are Python integers, hence
  \<^typ>\<open>int\<close>; a request list is an \<^typ>\<open>int list\<close>. List positions are natural numbers:
  every index the code computes lies in \<open>range(1, len(order))\<close> or is such an index
  minus one, so Python's wrap-around for negative indices never comes into play.
\<close>

subsection \<open>Exceptions of the Python operations used\<close>

datatype py_error = ZeroDivisionError | OverflowError | ValueError | KeyError

subsection \<open>Seek cost accounting\<close>

text \<open>
  Lines 11, 25 and 34:
  \<^verbatim>\<open>sum(abs(order[i] - order[i - 1]) for i in range(1, len(order)))\<close>.
\<close>

definition sum_abs_diffs :: "int list \<Rightarrow> int" where
  "sum_abs_diffs order =
     sum_list (map (\<lambda>i. \<bar>order ! i - order ! (i - 1)\<bar>) [1..<length order])"

text \<open>
  Lines 43 to 45, the accumulating loop of \<^verbatim>\<open>c_scan\<close>:
  \<^verbatim>\<open>total = 0; for i in range(1, len(order)): total += abs(order[i] - order[i - 1])\<close>.
\<close>

definition loop_abs_diffs :: "int list \<Rightarrow> int" where
  "loop_abs_diffs order =
     fold (\<lambda>i total. total + \<bar>order ! i - order ! (i - 1)\<bar>) [1..<length order] 0"

subsection \<open>FCFS\<close>

definition fcfs :: "int list \<Rightarrow> int \<Rightarrow> int list \<times> int" where
  "fcfs requests head =
     (let order = [head] @ requests;
          total = sum_abs_diffs order
      in (order, total))"

subsection \<open>SSTF\<close>

text \<open>
  \<^verbatim>\<open>min(reqs, key=f)\<close> raises \<^verbatim>\<open>ValueError\<close> on an empty sequence; otherwise it walks the
  sequence from the left, starting with the first item as the best one and replacing
  it only by an item whose key is strictly smaller.
\<close>

fun py_min :: "('a \<Rightarrow> int) \<Rightarrow> 'a list \<Rightarrow> py_error + 'a" where
  "py_min key [] = Inl ValueError"
| "py_min key (x # xs) = Inr (fold (\<lambda>y best. if key y < key best then y else best) xs x)"

text \<open>
  \<^verbatim>\<open>reqs.remove(v)\<close> deletes the first item equal to \<^verbatim>\<open>v\<close> and raises \<^verbatim>\<open>ValueError\<close>
  when there is none.
\<close>

definition py_remove :: "'a \<Rightarrow> 'a list \<Rightarrow> py_error + 'a list" where
  "py_remove v xs = (if v \<in> set xs then Inr (remove1 v xs) else Inl ValueError)"

text \<open>
  The \<^verbatim>\<open>while reqs:\<close> loop of lines 19 to 23, on the values of the three variables it
  updates.
\<close>

function sstf_loop :: "int list \<Rightarrow> int list \<Rightarrow> int \<Rightarrow> py_error + int list" where
  "sstf_loop reqs order current =
     (if reqs = [] then Inr order
      else case py_min (\<lambda>x. \<bar>x - current\<bar>) reqs of
             Inl e \<Rightarrow> Inl e
           | Inr nearest \<Rightarrow>
               (case py_remove nearest reqs of
                  Inl e \<Rightarrow> Inl e
                | Inr reqs' \<Rightarrow> sstf_loop reqs' (order @ [nearest]) nearest))"
  by pat_completeness auto
termination
proof (relation "measure (\<lambda>(reqs, order, current). length reqs)")
  show "wf (measure (\<lambda>(reqs, order, current). length reqs))"
    by simp
next
  fix reqs order :: "int list" and current nearest :: int and reqs' :: "int list"
  assume "reqs \<noteq> []" and "py_remove nearest reqs = Inr reqs'"
  then have "nearest \<in> set reqs" and "reqs' = remove1 nearest reqs"
    by (auto simp: py_remove_def split: if_splits)
  then have "length reqs' < length reqs"
    using \<open>reqs \<noteq> []\<close> by (simp add: length_remove1)
  then show "((reqs', order @ [nearest], nearest), (reqs, order, current))
               \<in> measure (\<lambda>(reqs, order, current). length reqs)"
    by simp
qed

definition sstf :: "int list \<Rightarrow> int \<Rightarrow> py_error + int list \<times> int" where
  "sstf requests head =
     (case sstf_loop requests [head] head of
        Inl e \<Rightarrow> Inl e
      | Inr order \<Rightarrow> Inr (order, sum_abs_diffs order))"

subsection \<open>SCAN and C-SCAN\<close>

text \<open>
  \<^verbatim>\<open>sorted\<close> on integers is \<^const>\<open>sort\<close>; \<^verbatim>\<open>left[::-1]\<close> is \<^const>\<open>rev\<close>. Both handlers
  pass \<^verbatim>\<open>disk_size\<close> explicitly, so the default value 200 is never used.
\<close>

definition scan :: "int list \<Rightarrow> int \<Rightarrow> int \<Rightarrow> int list \<times> int" where
  "scan requests head disk_size =
     (let left = sort (filter (\<lambda>r. r < head) requests);
          right = sort (filter (\<lambda>r. r \<ge> head) requests);
          order = [head] @ right @ [disk_size - 1] @ rev left;
          total = sum_abs_diffs order
      in (order, total))"

definition c_scan :: "int list \<Rightarrow> int \<Rightarrow> int \<Rightarrow> int list \<times> int" where
  "c_scan requests head disk_size =
     (let left = sort (filter (\<lambda>r. r < head) requests);
          right = sort (filter (\<lambda>r. r \<ge> head) requests);
          order = [head] @ right @ [disk_size - 1, 0] @ left;
          total = loop_abs_diffs order
      in (order, total))"

subsection \<open>Derived metrics and the two button handlers\<close>

text \<open>
  \<^verbatim>\<open>a / b\<close> on two Python integers is true division: it raises \<^verbatim>\<open>ZeroDivisionError\<close>
  when \<^verbatim>\<open>b\<close> is zero, raises \<^verbatim>\<open>OverflowError\<close> when the correctly rounded quotient
  does not fit a double (from \<open>2\<^sup>1\<^sup>0\<^sup>2\<^sup>4 - 2\<^sup>9\<^sup>7\<^sup>0\<close> on in absolute value), and otherwise
  yields that double. The double itself is kept symbolic: \<open>PyFloatQuot a b\<close> stands for
  the float nearest to the exact quotient of \<open>a\<close> by \<open>b\<close>. \<open>PyInt\<close> is an integer result,
  such as the literal \<^verbatim>\<open>0\<close> of the conditional expression of line 106.
\<close>

datatype py_num = PyInt int | PyFloatQuot int int

definition py_truediv :: "int \<Rightarrow> int \<Rightarrow> py_error + py_num" where
  "py_truediv a b =
     (if b = 0 then Inl ZeroDivisionError
      else if (2 ^ 1024 - 2 ^ 970) * \<bar>b\<bar> \<le> \<bar>a\<bar> then Inl OverflowError
      else Inr (PyFloatQuot a b))"

text \<open>
  The dictionary \<^verbatim>\<open>algorithms\<close> of lines 89 to 94, in insertion order; the two lambdas
  close over the widget value \<^verbatim>\<open>disk_size\<close>. Of the four entries only \<^verbatim>\<open>sstf\<close> calls
  operations that can raise.
\<close>

type_synonym policy = "int list \<Rightarrow> int \<Rightarrow> py_error + int list \<times> int"

definition algorithms :: "int \<Rightarrow> (string \<times> policy) list" where
  "algorithms disk_size =
     [(''FCFS'', \<lambda>r h. Inr (fcfs r h)),
      (''SSTF'', sstf),
      (''SCAN'', \<lambda>r h. Inr (scan r h disk_size)),
      (''C-SCAN'', \<lambda>r h. Inr (c_scan r h disk_size))]"

text \<open>\<^verbatim>\<open>d[k]\<close> on a dictionary: \<^verbatim>\<open>KeyError\<close> for a missing key.\<close>

definition py_getitem :: "('k \<times> 'v) list \<Rightarrow> 'k \<Rightarrow> py_error + 'v" where
  "py_getitem d k = (case map_of d k of None \<Rightarrow> Inl KeyError | Some v \<Rightarrow> Inr v)"

text \<open>
  The body of \<^verbatim>\<open>if st.button("Run Simulation")\<close> after its first line, lines 102 to 112,
  as a function of the list that line 100 parsed: the values it displays, or the
  exception that ends it. The parse of line 100 is \<open>int_list_of_text\<close> below, and
  \<open>run_simulation_button\<close> is the handler as a whole. The formatting of the numbers and
  the animation are not modelled.
\<close>

definition run_simulation ::
  "string \<Rightarrow> int list \<Rightarrow> int \<Rightarrow> int \<Rightarrow> py_error + int list \<times> int \<times> py_num \<times> py_num" where
  "run_simulation algo requests head disk_size =
     (case py_getitem (algorithms disk_size) algo of
        Inl e \<Rightarrow> Inl e
      | Inr selected_algo \<Rightarrow>
          (case selected_algo requests head of
             Inl e \<Rightarrow> Inl e
           | Inr result \<Rightarrow>
               (let (order, total) = result in
                case py_truediv total (int (length requests)) of
                  Inl e \<Rightarrow> Inl e
                | Inr avg_seek \<Rightarrow>
                    (case (if total \<noteq> 0 then py_truediv (int (length requests)) total
                           else Inr (PyInt 0)) of
                       Inl e \<Rightarrow> Inl e
                     | Inr throughput \<Rightarrow> Inr (order, total, avg_seek, throughput)))))"

text \<open>
  The loop of lines 123 to 126 over \<^verbatim>\<open>algorithms.items()\<close>, filling the dictionaries
  \<^verbatim>\<open>results\<close> and \<^verbatim>\<open>orders\<close>; a dictionary assignment replaces the value of a key that
  is present and appends a new key otherwise, which is \<^const>\<open>AList.update\<close>.
\<close>

fun run_policies ::
  "(string \<times> policy) list \<Rightarrow> int list \<Rightarrow> int \<Rightarrow> (string \<times> int) list \<Rightarrow>
   (string \<times> int list) list \<Rightarrow> py_error + (string \<times> int) list \<times> (string \<times> int list) list" where
  "run_policies [] request_list head results orders = Inr (results, orders)"
| "run_policies ((name, fn) # items) request_list head results orders =
     (case fn request_list head of
        Inl e \<Rightarrow> Inl e
      | Inr result \<Rightarrow>
          (let (order, total) = result in
           run_policies items request_list head
             (AList.update name total results) (AList.update name order orders)))"

text \<open>A list comprehension whose element expression can raise: the first exception ends it.\<close>

fun py_list_comp :: "('a \<Rightarrow> py_error + 'b) \<Rightarrow> 'a list \<Rightarrow> py_error + 'b list" where
  "py_list_comp f [] = Inr []"
| "py_list_comp f (x # xs) =
     (case f x of
        Inl e \<Rightarrow> Inl e
      | Inr y \<Rightarrow> (case py_list_comp f xs of Inl e \<Rightarrow> Inl e | Inr ys \<Rightarrow> Inr (y # ys)))"

text \<open>
  The body of \<^verbatim>\<open>if st.button("Compare All Algorithms")\<close> after its first line, as a
  function of the list that line 118 parsed (\<open>compare_all_button\<close> below is the handler
  as a whole): the four columns of the table
  of lines 131 to 136, evaluated in the order they are written, and the dictionary
  \<^verbatim>\<open>orders\<close> the movement charts are drawn from. Lines 153 to 158 evaluate the same four
  column expressions once more for the export, on unchanged values.
\<close>

record comparison =
  algorithm_col :: "string list"
  total_col :: "int list"
  avg_col :: "py_num list"
  throughput_col :: "py_num list"
  orders_dict :: "(string \<times> int list) list"

definition compare_all :: "int list \<Rightarrow> int \<Rightarrow> int \<Rightarrow> py_error + comparison" where
  "compare_all request_list head disk_size =
     (case run_policies (algorithms disk_size) request_list head [] [] of
        Inl e \<Rightarrow> Inl e
      | Inr (results, orders) \<Rightarrow>
          (case py_list_comp
                  (\<lambda>a. case py_getitem results a of
                         Inl e \<Rightarrow> Inl e
                       | Inr t \<Rightarrow> py_truediv t (int (length request_list)))
                  (map fst results) of
             Inl e \<Rightarrow> Inl e
           | Inr avgs \<Rightarrow>
               (case py_list_comp
                       (\<lambda>a. case py_getitem results a of
                              Inl e \<Rightarrow> Inl e
                            | Inr t \<Rightarrow>
                                (if t \<noteq> 0 then py_truediv (int (length request_list)) t
                                 else Inr (PyInt 0)))
                       (map fst results) of
                  Inl e \<Rightarrow> Inl e
                | Inr throughputs \<Rightarrow>
                    Inr \<lparr>algorithm_col = map fst results, total_col = map snd results,
                         avg_col = avgs, throughput_col = throughputs,
                         orders_dict = orders\<rparr>)))"

subsection \<open>The request text and the handlers as run\<close>











subsection \<open>The policies on a store of list objects\<close>

text \<open>
  Python passes a list by reference. To tell whether a policy changes the list object of
  its caller, the policies are modelled a second time on a store of list objects: an
  address is a position in the store, \<open>new_list\<close> allocates at the end, and
  \<^verbatim>\<open>append\<close> and \<^verbatim>\<open>remove\<close> update a cell in place. A cell is given to each list a
  variable of the function is bound to; operands of an expression that no name is bound
  to get none.
\<close>

type_synonym store = "int list list"

definition new_list :: "store \<Rightarrow> int list \<Rightarrow> nat \<times> store" where
  "new_list s xs = (length s, s @ [xs])"

definition py_append_st :: "store \<Rightarrow> nat \<Rightarrow> int \<Rightarrow> store" where
  "py_append_st s a v = s[a := s ! a @ [v]]"

definition py_remove_st :: "store \<Rightarrow> nat \<Rightarrow> int \<Rightarrow> py_error + store" where
  "py_remove_st s a v =
     (if v \<in> set (s ! a) then Inr (s[a := remove1 v (s ! a)]) else Inl ValueError)"

definition fcfs_st :: "store \<Rightarrow> nat \<Rightarrow> int \<Rightarrow> (nat \<times> int) \<times> store" where
  "fcfs_st s requests head =
     (let (order, s1) = new_list s ([head] @ s ! requests);
          total = sum_abs_diffs (s1 ! order)
      in ((order, total), s1))"

text \<open>
  The loop of \<^verbatim>\<open>sstf\<close> on the store. Were \<^verbatim>\<open>reqs\<close> and \<^verbatim>\<open>order\<close> the same object, each
  round would append an item and remove one and the loop would never end; so the
  function is partial, and \<open>None\<close> is the loop that does not return.
\<close>

partial_function (option) sstf_loop_st ::
  "store \<Rightarrow> nat \<Rightarrow> nat \<Rightarrow> int \<Rightarrow> (py_error + store) option" where
  "sstf_loop_st s reqs order current =
     (if s ! reqs = [] then Some (Inr s)
      else case py_min (\<lambda>x. \<bar>x - current\<bar>) (s ! reqs) of
             Inl e \<Rightarrow> Some (Inl e)
           | Inr nearest \<Rightarrow>
               (case py_remove_st (py_append_st s order nearest) reqs nearest of
                  Inl e \<Rightarrow> Some (Inl e)
                | Inr s' \<Rightarrow> sstf_loop_st s' reqs order nearest))"

declare sstf_loop_st.simps [code]

definition sstf_st :: "store \<Rightarrow> nat \<Rightarrow> int \<Rightarrow> (py_error + (nat \<times> int) \<times> store) option" where
  "sstf_st s requests head =
     (let (reqs, s1) = new_list s (s ! requests);
          (order, s2) = new_list s1 [head]
      in case sstf_loop_st s2 reqs order head of
           None \<Rightarrow> None
         | Some (Inl e) \<Rightarrow> Some (Inl e)
         | Some (Inr s3) \<Rightarrow> Some (Inr ((order, sum_abs_diffs (s3 ! order)), s3)))"

definition scan_st :: "store \<Rightarrow> nat \<Rightarrow> int \<Rightarrow> int \<Rightarrow> (nat \<times> int) \<times> store" where
  "scan_st s requests head disk_size =
     (let (left, s1) = new_list s (sort (filter (\<lambda>r. r < head) (s ! requests)));
          (right, s2) = new_list s1 (sort (filter (\<lambda>r. r \<ge> head) (s1 ! requests)));
          (order, s3) = new_list s2 ([head] @ s2 ! right @ [disk_size - 1] @ rev (s2 ! left));
          total = sum_abs_diffs (s3 ! order)
      in ((order, total), s3))"

definition c_scan_st :: "store \<Rightarrow> nat \<Rightarrow> int \<Rightarrow> int \<Rightarrow> (nat \<times> int) \<times> store" where
  "c_scan_st s requests head disk_size =
     (let (left, s1) = new_list s (sort (filter (\<lambda>r. r < head) (s ! requests)));
          (right, s2) = new_list s1 (sort (filter (\<lambda>r. r \<ge> head) (s1 ! requests)));
          (order, s3) = new_list s2 ([head] @ s2 ! right @ [disk_size - 1, 0] @ s2 ! left);
          total = loop_abs_diffs (s3 ! order)
      in ((order, total), s3))"

subsection \<open>The data model of the specification\<close>

text \<open>
  SeekCost, as the specification's data model words it: the sum of the absolute
  differences over the consecutive pairs of a visit order.
\<close>

fun seek_cost :: "int list \<Rightarrow> int" where
  "seek_cost (a # b # rest) = \<bar>b - a\<bar> + seek_cost (b # rest)"
| "seek_cost _ = 0"

text \<open>
  The greedy nearest-neighbour order, as the specification words it: \<open>out\<close> services
  \<open>remaining\<close> starting from \<open>current\<close> when each item of \<open>out\<close> in turn sits at some
  position \<open>i\<close> of what remains, no remaining item is closer to the current position, no
  item before position \<open>i\<close> is equally close, and the rest of \<open>out\<close> services what
  remains after removing that item, starting from it; nothing remains at the end.
\<close>

fun greedy_nearest_order :: "int list \<Rightarrow> int \<Rightarrow> int list \<Rightarrow> bool" where
  "greedy_nearest_order remaining current [] = (remaining = [])"
| "greedy_nearest_order remaining current (v # rest) =
     ((\<exists>i \<in> {0..<length remaining}.
         remaining ! i = v \<and>
         (\<forall>j \<in> {0..<length remaining}. \<bar>v - current\<bar> \<le> \<bar>remaining ! j - current\<bar>) \<and>
         (\<forall>j \<in> {0..<i}. \<bar>remaining ! j - current\<bar> \<noteq> \<bar>v - current\<bar>))
      \<and> greedy_nearest_order (remove1 v remaining) v rest)"

section \<open>Seek cost: the indexed sums agree with the sum over consecutive pairs\<close>

lemma upt_1_Cons2:
  "[1..<length (a # b # rest)] = 1 # map Suc [1..<length (b # rest)]"
  by (simp add: upt_conv_Cons map_Suc_upt del: upt_Suc)

lemma sum_abs_diffs_Cons2:
  "sum_abs_diffs (a # b # rest) = \<bar>b - a\<bar> + sum_abs_diffs (b # rest)"
proof -
  have shift:
    "map (\<lambda>i. \<bar>(a # b # rest) ! i - (a # b # rest) ! (i - 1)\<bar>) (map Suc [1..<length (b # rest)])
      = map (\<lambda>i. \<bar>(b # rest) ! i - (b # rest) ! (i - 1)\<bar>) [1..<length (b # rest)]"
    by (simp add: nth_Cons' del: upt_Suc)
  have "sum_abs_diffs (a # b # rest)
      = sum_list (map (\<lambda>i. \<bar>(a # b # rest) ! i - (a # b # rest) ! (i - 1)\<bar>)
          (1 # map Suc [1..<length (b # rest)]))"
    unfolding sum_abs_diffs_def upt_1_Cons2 ..
  also have "\<dots> = \<bar>b - a\<bar> + sum_list (map (\<lambda>i. \<bar>(b # rest) ! i - (b # rest) ! (i - 1)\<bar>)
          [1..<length (b # rest)])"
    unfolding list.map sum_list.Cons shift by simp
  finally show ?thesis
    unfolding sum_abs_diffs_def .
qed

lemma sum_abs_diffs_seek_cost: "sum_abs_diffs order = seek_cost order"
proof (induction order rule: seek_cost.induct)
  case (1 a b rest)
  then show ?case by (simp add: sum_abs_diffs_Cons2)
qed (simp_all add: sum_abs_diffs_def)

lemma fold_add_sum_list:
  "fold (\<lambda>i total. total + g i) xs (a::int) = a + sum_list (map g xs)"
  by (induction xs arbitrary: a) simp_all

lemma loop_abs_diffs_seek_cost: "loop_abs_diffs order = seek_cost order"
  using fold_add_sum_list [of "\<lambda>i. \<bar>order ! i - order ! (i - 1)\<bar>" "[1..<length order]" 0]
    sum_abs_diffs_seek_cost [of order]
  by (simp add: loop_abs_diffs_def sum_abs_diffs_def)

section \<open>FCFS\<close>

text \<open>
  Claim C6. FCFS is order-preserving: for every request list and head, the visit order is
  the head followed by the requests exactly as given (the order without its first item
  is the request list itself), and the seek cost is the sum of the absolute differences
  of consecutive items of that order.
\<close>

theorem fcfs_order_preserving:
  "fcfs requests head = ([head] @ requests, seek_cost ([head] @ requests))
   \<and> drop 1 (fst (fcfs requests head)) = requests"
  by (simp add: fcfs_def Let_def sum_abs_diffs_seek_cost)

theorem fcfs_order_preserving_witness:
  "fcfs [82, 170, 43, 140, 24, 16, 190] 50 = ([50, 82, 170, 43, 140, 24, 16, 190], 642)
   \<and> drop 1 (fst (fcfs [82, 170, 43, 140, 24, 16, 190] 50)) = [82, 170, 43, 140, 24, 16, 190]"
  using fcfs_order_preserving [of "[82, 170, 43, 140, 24, 16, 190]" 50]
  by simp

section \<open>SCAN and C-SCAN\<close>

text \<open>
  Claim C3. For every request list, head and disk size, SCAN returns the head, then the
  requests at or above the head in ascending order, then the boundary cylinder
  \<open>disk_size - 1\<close>, then the requests below the head in descending order. The boundary
  stop is there whatever the requests are (also when a request equals it, and when no
  request lies at or above the head). The seek cost is the sum of the absolute
  differences of consecutive items of that order.
\<close>

theorem scan_visit_order:
  "\<exists>right left.
     sorted right \<and> mset right = filter_mset (\<lambda>r. r \<ge> head) (mset requests) \<and>
     sorted (rev left) \<and> mset left = filter_mset (\<lambda>r. r < head) (mset requests) \<and>
     scan requests head disk_size =
       ([head] @ right @ [disk_size - 1] @ left,
        seek_cost ([head] @ right @ [disk_size - 1] @ left))"
proof (intro exI conjI)
  show "scan requests head disk_size =
       ([head] @ sort (filter (\<lambda>r. r \<ge> head) requests) @ [disk_size - 1]
          @ rev (sort (filter (\<lambda>r. r < head) requests)),
        seek_cost ([head] @ sort (filter (\<lambda>r. r \<ge> head) requests) @ [disk_size - 1]
          @ rev (sort (filter (\<lambda>r. r < head) requests))))"
    by (simp add: scan_def Let_def sum_abs_diffs_seek_cost)
qed simp_all

theorem scan_visit_order_witness:
  "scan [82, 170, 43, 140, 24, 16, 199] 50 200 = ([50, 82, 140, 170, 199, 199, 43, 24, 16], 332)
   \<and> scan [16, 24] 50 200 = ([50, 199, 24, 16], 332)"
  using scan_visit_order [of 50 "[82, 170, 43, 140, 24, 16, 199]" 200]
    scan_visit_order [of 50 "[16, 24]" 200]
  by (simp add: scan_def sum_abs_diffs_def)

text \<open>
  Claim C4. For every request list, head and disk size, C-SCAN returns the head, then the
  requests at or above the head in ascending order, then the two boundary cylinders
  \<open>disk_size - 1\<close> and \<open>0\<close>, then the requests below the head in ascending order (not
  reversed): all low-end requests come after the jump to \<open>0\<close>. The seek cost is the sum
  of the absolute differences of consecutive items of that order.
\<close>

theorem c_scan_visit_order:
  "\<exists>right left.
     sorted right \<and> mset right = filter_mset (\<lambda>r. r \<ge> head) (mset requests) \<and>
     sorted left \<and> mset left = filter_mset (\<lambda>r. r < head) (mset requests) \<and>
     c_scan requests head disk_size =
       ([head] @ right @ [disk_size - 1, 0] @ left,
        seek_cost ([head] @ right @ [disk_size - 1, 0] @ left))"
proof (intro exI conjI)
  show "c_scan requests head disk_size =
       ([head] @ sort (filter (\<lambda>r. r \<ge> head) requests) @ [disk_size - 1, 0]
          @ sort (filter (\<lambda>r. r < head) requests),
        seek_cost ([head] @ sort (filter (\<lambda>r. r \<ge> head) requests) @ [disk_size - 1, 0]
          @ sort (filter (\<lambda>r. r < head) requests)))"
    by (simp add: c_scan_def Let_def loop_abs_diffs_seek_cost)
qed simp_all

theorem c_scan_visit_order_witness:
  "c_scan [82, 170, 43, 140, 24, 16, 190] 50 200
     = ([50, 82, 140, 170, 190, 199, 0, 16, 24, 43], 391)
   \<and> c_scan [82, 170] 50 200 = ([50, 82, 170, 199, 0], 348)"
  using c_scan_visit_order [of 50 "[82, 170, 43, 140, 24, 16, 190]" 200]
    c_scan_visit_order [of 50 "[82, 170]" 200]
  by (simp add: c_scan_def loop_abs_diffs_def)

section \<open>SSTF\<close>

text \<open>
  The scan of \<^verbatim>\<open>min\<close> ends on the leftmost item whose key is least.
\<close>

lemma fold_min_first:
  fixes key :: "'a \<Rightarrow> int"
  shows "\<exists>i<length (x # xs).
           (x # xs) ! i = fold (\<lambda>y best. if key y < key best then y else best) xs x \<and>
           (\<forall>j<i. key ((x # xs) ! i) < key ((x # xs) ! j)) \<and>
           (\<forall>j<length (x # xs). key ((x # xs) ! i) \<le> key ((x # xs) ! j))"
proof (induction xs rule: rev_induct)
  case Nil
  show ?case by simp
next
  case (snoc y xs)
  let ?f = "\<lambda>y best. if key y < key best then y else best"
  let ?zs = "x # xs"
  from snoc obtain i where i: "i < length ?zs" "?zs ! i = fold ?f xs x"
    and first: "\<forall>j<i. key (?zs ! i) < key (?zs ! j)"
    and least: "\<forall>j<length ?zs. key (?zs ! i) \<le> key (?zs ! j)"
    by blast
  have app: "x # xs @ [y] = ?zs @ [y]" by simp
  have old: "\<And>j. j < length ?zs \<Longrightarrow> (?zs @ [y]) ! j = ?zs ! j"
    by (simp add: nth_append del: append_Cons)
  have new: "(?zs @ [y]) ! length ?zs = y"
    by (simp only: nth_append_length)
  show ?case
  proof (cases "key y < key (?zs ! i)")
    case True
    then have res: "fold ?f (xs @ [y]) x = y"
      using i by simp
    have "\<forall>j<length ?zs. key y < key ((?zs @ [y]) ! j)"
      using least True old by fastforce
    moreover have "\<forall>j<length (?zs @ [y]). key y \<le> key ((?zs @ [y]) ! j)"
    proof (intro allI impI)
      fix j assume "j < length (?zs @ [y])"
      then consider "j < length ?zs" | "j = length ?zs" by fastforce
      then show "key y \<le> key ((?zs @ [y]) ! j)"
      proof cases
        case 1
        then show ?thesis using least True old by fastforce
      next
        case 2
        then show ?thesis using new by simp
      qed
    qed
    ultimately show ?thesis
      unfolding app using res new
      by (intro exI [of _ "length ?zs"]) (simp del: append_Cons)
  next
    case False
    then have res: "fold ?f (xs @ [y]) x = ?zs ! i"
      using i by simp
    have "\<forall>j<length (?zs @ [y]). key (?zs ! i) \<le> key ((?zs @ [y]) ! j)"
    proof (intro allI impI)
      fix j assume "j < length (?zs @ [y])"
      then consider "j < length ?zs" | "j = length ?zs" by fastforce
      then show "key (?zs ! i) \<le> key ((?zs @ [y]) ! j)"
      proof cases
        case 1
        then show ?thesis using least old by fastforce
      next
        case 2
        then show ?thesis using new False by simp
      qed
    qed
    moreover have "\<forall>j<i. key (?zs ! i) < key ((?zs @ [y]) ! j)"
      using first old i by fastforce
    moreover have "(?zs @ [y]) ! i = ?zs ! i" "i < length (?zs @ [y])"
      using old i by simp_all
    ultimately show ?thesis
      unfolding app using res
      by (intro exI [of _ i]) (simp del: append_Cons)
  qed
qed

lemma py_min_first:
  fixes key :: "'a \<Rightarrow> int"
  assumes "xs \<noteq> []"
  shows "\<exists>i<length xs. py_min key xs = Inr (xs ! i) \<and>
           (\<forall>j<i. key (xs ! i) < key (xs ! j)) \<and>
           (\<forall>j<length xs. key (xs ! i) \<le> key (xs ! j))"
proof -
  from assms obtain x ys where xs: "xs = x # ys"
    by (cases xs) auto
  show ?thesis
    unfolding xs py_min.simps using fold_min_first [of x ys key] by auto
qed

text \<open>
  The loop never raises; what it appends to \<open>order\<close> is a greedy nearest-neighbour order
  of \<open>reqs\<close> and a rearrangement of it.
\<close>

lemma sstf_loop_greedy:
  "\<exists>out. sstf_loop reqs order current = Inr (order @ out) \<and>
         greedy_nearest_order reqs current out \<and> mset out = mset reqs"
proof (induction reqs order current rule: sstf_loop.induct)
  case (1 reqs order current)
  show ?case
  proof (cases "reqs = []")
    case True
    then show ?thesis
      by (intro exI [of _ "[]"]) (simp add: sstf_loop.simps [of reqs])
  next
    case False
    let ?key = "\<lambda>x. \<bar>x - current\<bar>"
    from py_min_first [OF False, of ?key] obtain i where i: "i < length reqs"
      and pm: "py_min ?key reqs = Inr (reqs ! i)"
      and first: "\<forall>j<i. ?key (reqs ! i) < ?key (reqs ! j)"
      and least: "\<forall>j<length reqs. ?key (reqs ! i) \<le> ?key (reqs ! j)"
      by blast
    let ?n = "reqs ! i"
    have mem: "?n \<in> set reqs" using i by simp
    then have rm: "py_remove ?n reqs = Inr (remove1 ?n reqs)"
      by (simp add: py_remove_def)
    from "1.IH" [OF False pm rm] obtain out
      where rec: "sstf_loop (remove1 ?n reqs) (order @ [?n]) ?n = Inr ((order @ [?n]) @ out)"
        and g: "greedy_nearest_order (remove1 ?n reqs) ?n out"
        and m: "mset out = mset (remove1 ?n reqs)"
      by blast
    have "sstf_loop reqs order current = Inr (order @ ?n # out)"
      using False pm rm rec by (simp add: sstf_loop.simps [of reqs])
    moreover have "greedy_nearest_order reqs current (?n # out)"
    proof -
      have "\<forall>j \<in> {0..<i}. ?key (reqs ! j) \<noteq> ?key ?n"
        using first by fastforce
      moreover have "\<forall>j \<in> {0..<length reqs}. ?key ?n \<le> ?key (reqs ! j)"
        using least by simp
      ultimately show ?thesis
        using i g by (simp del: atLeastLessThan_iff) (metis atLeastLessThan_iff le0)
    qed
    moreover have "mset (?n # out) = mset reqs"
      using m mem by simp
    ultimately show ?thesis by blast
  qed
qed

lemma sstf_result:
  "\<exists>out. sstf requests head = Inr (head # out, seek_cost (head # out)) \<and>
         greedy_nearest_order requests head out \<and> mset out = mset requests"
proof -
  from sstf_loop_greedy [of requests "[head]" head] obtain out
    where "sstf_loop requests [head] head = Inr ([head] @ out)"
      and "greedy_nearest_order requests head out" and "mset out = mset requests"
    by blast
  then show ?thesis
    by (simp add: sstf_def sum_abs_diffs_seek_cost)
qed

text \<open>
  The description determines the order: two greedy nearest-neighbour orders of the same
  requests from the same position are equal.
\<close>

lemma greedy_nearest_order_unique:
  "greedy_nearest_order remaining current out \<Longrightarrow>
   greedy_nearest_order remaining current out' \<Longrightarrow> out = out'"
proof (induction out arbitrary: remaining current out')
  case Nil
  then show ?case by (cases out') auto
next
  case (Cons v rest)
  from Cons.prems(1) obtain i where i: "i < length remaining" "remaining ! i = v"
    and least: "\<forall>j<length remaining. \<bar>v - current\<bar> \<le> \<bar>remaining ! j - current\<bar>"
    and first: "\<forall>j<i. \<bar>remaining ! j - current\<bar> \<noteq> \<bar>v - current\<bar>"
    and more: "greedy_nearest_order (remove1 v remaining) v rest"
    by auto
  from i have "remaining \<noteq> []" by auto
  with Cons.prems(2) obtain v' rest' where out': "out' = v' # rest'"
    by (cases out') auto
  from Cons.prems(2) [unfolded out'] obtain i' where i': "i' < length remaining" "remaining ! i' = v'"
    and least': "\<forall>j<length remaining. \<bar>v' - current\<bar> \<le> \<bar>remaining ! j - current\<bar>"
    and first': "\<forall>j<i'. \<bar>remaining ! j - current\<bar> \<noteq> \<bar>v' - current\<bar>"
    and more': "greedy_nearest_order (remove1 v' remaining) v' rest'"
    by auto
  have eq: "\<bar>v - current\<bar> = \<bar>v' - current\<bar>"
    using least least' i i' by (metis order_antisym)
  have "i = i'"
  proof (rule ccontr)
    assume "i \<noteq> i'"
    then consider "i < i'" | "i' < i" by linarith
    then show False
    proof cases
      case 1
      with first' i eq show False by auto
    next
      case 2
      with first i' eq show False by auto
    qed
  qed
  with i i' have "v = v'" by simp
  with more more' Cons.IH have "rest = rest'" by blast
  with \<open>v = v'\<close> out' show ?case by simp
qed

text \<open>
  Claim C5. For every request list and head, SSTF returns (it raises nothing) the head
  followed by an order built by repeatedly taking, from the requests not yet serviced, one
  whose distance to the current position is least, the first such in the order of what
  remains when several are equally near, removing it and moving the current position to
  it; it is the only order built that way. Every input request appears exactly once in
  that order, duplicates and ties included: the order after the head is a rearrangement
  of the request list.
\<close>

theorem sstf_greedy_nearest:
  "\<exists>out total. sstf requests head = Inr (head # out, total) \<and>
     greedy_nearest_order requests head out \<and>
     (\<forall>out'. greedy_nearest_order requests head out' \<longrightarrow> out' = out) \<and>
     mset out = mset requests"
proof -
  from sstf_result [of requests head] obtain out
    where "sstf requests head = Inr (head # out, seek_cost (head # out))"
      and g: "greedy_nearest_order requests head out" and "mset out = mset requests"
    by blast
  moreover have "\<forall>out'. greedy_nearest_order requests head out' \<longrightarrow> out' = out"
    using g greedy_nearest_order_unique by blast
  ultimately show ?thesis by blast
qed

theorem sstf_greedy_nearest_witness:
  "sstf [48, 52, 52, 48, 60] 50 = Inr ([50, 48, 48, 52, 52, 60], 14)
   \<and> greedy_nearest_order [48, 52, 52, 48, 60] 50 [48, 48, 52, 52, 60]
   \<and> \<not> greedy_nearest_order [48, 52, 52, 48, 60] 50 [52, 52, 48, 48, 60]
   \<and> mset [48, 48, 52, 52, 60] = mset [48, 52, 52, 48, 60::int]"
proof -
  have v: "sstf [48, 52, 52, 48, 60] 50 = Inr ([50, 48, 48, 52, 52, 60], 14)"
    by (simp add: sstf_def py_remove_def sum_abs_diffs_def)
  from sstf_greedy_nearest [of "[48, 52, 52, 48, 60]" 50] obtain out total
    where r: "sstf [48, 52, 52, 48, 60] 50 = Inr (50 # out, total)"
      and g: "greedy_nearest_order [48, 52, 52, 48, 60] 50 out"
      and u: "\<forall>out'. greedy_nearest_order [48, 52, 52, 48, 60] 50 out' \<longrightarrow> out' = out"
      and m: "mset out = mset [48, 52, 52, 48, 60]"
    by blast
  from r have out: "out = [48, 48, 52, 52, 60]"
    unfolding v by simp
  have "\<not> greedy_nearest_order [48, 52, 52, 48, 60] 50 [52, 52, 48, 48, 60]"
  proof
    assume "greedy_nearest_order [48, 52, 52, 48, 60] 50 [52, 52, 48, 48, 60]"
    with u have "[52, 52, 48, 48, 60] = out" by blast
    then show False unfolding out by simp
  qed
  with v g m show ?thesis
    unfolding out by blast
qed

section \<open>Length and content of the visit order\<close>

lemma mset_partition_head:
  "filter_mset (\<lambda>r. head \<le> r) M + filter_mset (\<lambda>r. r < head) M = (M :: int multiset)"
proof -
  have "filter_mset (\<lambda>r. r < head) M = filter_mset (\<lambda>r. \<not> head \<le> r) M"
    by (simp add: not_le)
  then show ?thesis
    by simp
qed

text \<open>
  Claim C1, as stated, fails for SCAN and C-SCAN: on the specification's own scenario
  SCAN returns nine positions for seven requests.
\<close>

theorem visit_order_length_counterexample:
  "\<not> (length (fst (scan [82, 170, 43, 140, 24, 16, 190] 50 200))
         = length [82, 170, 43, 140, 24, 16, 190 :: int] + 1
       \<and> mset (drop 1 (fst (scan [82, 170, 43, 140, 24, 16, 190] 50 200)))
         = mset [82, 170, 43, 140, 24, 16, 190])"
  by (simp add: scan_def Let_def)

text \<open>
  Claim C1, amended. For every request list, head position and disk size: FCFS and SSTF
  return a visit order of length \<open>len(requests) + 1\<close> whose items after the head are a
  rearrangement of the requests (none dropped, none duplicated, none added). SCAN
  returns \<open>len(requests) + 2\<close> positions: after the head, the requests and one more
  item, the boundary \<open>disk_size - 1\<close>. C-SCAN returns \<open>len(requests) + 3\<close> positions:
  after the head, the requests and two more items, \<open>disk_size - 1\<close> and \<open>0\<close>.
\<close>

theorem visit_order_length_and_content:
  "length (fst (fcfs requests head)) = length requests + 1
   \<and> mset (drop 1 (fst (fcfs requests head))) = mset requests
   \<and> (\<exists>order total. sstf requests head = Inr (order, total)
        \<and> length order = length requests + 1
        \<and> mset (drop 1 order) = mset requests)
   \<and> length (fst (scan requests head disk_size)) = length requests + 2
   \<and> mset (drop 1 (fst (scan requests head disk_size))) = mset requests + {#disk_size - 1#}
   \<and> length (fst (c_scan requests head disk_size)) = length requests + 3
   \<and> mset (drop 1 (fst (c_scan requests head disk_size)))
       = mset requests + {#disk_size - 1, 0#}"
proof -
  have f: "length (fst (fcfs requests head)) = length requests + 1"
    "mset (drop 1 (fst (fcfs requests head))) = mset requests"
    by (simp_all add: fcfs_def Let_def)
  from sstf_result [of requests head] obtain out
    where out: "sstf requests head = Inr (head # out, seek_cost (head # out))"
      "mset out = mset requests"
    by blast
  from out(2) have "length out = length requests"
    by (rule mset_eq_length)
  with out have s: "\<exists>order total. sstf requests head = Inr (order, total)
        \<and> length order = length requests + 1 \<and> mset (drop 1 order) = mset requests"
    by simp
  have len: "length (filter (\<lambda>r. head \<le> r) requests) + length (filter (\<lambda>r. r < head) requests)
      = length requests"
    using sum_length_filter_compl [of "\<lambda>r. head \<le> r" requests] by (simp add: not_le)
  have sc: "length (fst (scan requests head disk_size)) = length requests + 2"
    "length (fst (c_scan requests head disk_size)) = length requests + 3"
    using len by (simp_all add: scan_def c_scan_def Let_def)
  have ms: "mset (drop 1 (fst (scan requests head disk_size))) = mset requests + {#disk_size - 1#}"
    "mset (drop 1 (fst (c_scan requests head disk_size))) = mset requests + {#disk_size - 1, 0#}"
    using mset_partition_head [of head "mset requests"]
    by (simp_all add: scan_def c_scan_def Let_def)
  from f s sc ms show ?thesis
    by blast
qed

theorem visit_order_length_and_content_witness:
  "fst (scan [82, 170, 43, 140, 24, 16, 190] 50 200) = [50, 82, 140, 170, 190, 199, 43, 24, 16]
   \<and> length (fst (scan [82, 170, 43, 140, 24, 16, 190] 50 200)) = 7 + 2
   \<and> fst (c_scan [82, 170, 43, 140, 24, 16, 190] 50 200)
       = [50, 82, 140, 170, 190, 199, 0, 16, 24, 43]
   \<and> length (fst (c_scan [82, 170, 43, 140, 24, 16, 190] 50 200)) = 7 + 3
   \<and> sstf [82, 170, 43, 140, 24, 16, 190] 50 = Inr ([50, 43, 24, 16, 82, 140, 170, 190], 208)"
  using visit_order_length_and_content [of "[82, 170, 43, 140, 24, 16, 190]" 50 200]
  by (simp add: scan_def c_scan_def sstf_def py_remove_def sum_abs_diffs_def Let_def)

text \<open>
  Claim C2, as stated, fails for SCAN and C-SCAN: with no request they still travel to
  the boundary.
\<close>

theorem empty_requests_counterexample:
  "scan [] 50 200 = ([50, 199], 149) \<and> scan [] 50 200 \<noteq> ([50], 0)
   \<and> c_scan [] 50 200 = ([50, 199, 0], 348) \<and> c_scan [] 50 200 \<noteq> ([50], 0)"
  by (simp add: scan_def c_scan_def sum_abs_diffs_def loop_abs_diffs_def)

text \<open>
  Claim C2, amended. With an empty request list FCFS and SSTF return the visit order
  \<open>[head]\<close> and seek cost \<open>0\<close>; SCAN returns \<open>[head, disk_size - 1]\<close> with seek cost
  \<open>|disk_size - 1 - head|\<close>; C-SCAN returns \<open>[head, disk_size - 1, 0]\<close> with seek cost
  \<open>|disk_size - 1 - head| + |0 - (disk_size - 1)|\<close>.
\<close>

theorem empty_requests:
  "fcfs [] head = ([head], 0)
   \<and> sstf [] head = Inr ([head], 0)
   \<and> scan [] head disk_size = ([head, disk_size - 1], \<bar>disk_size - 1 - head\<bar>)
   \<and> c_scan [] head disk_size
       = ([head, disk_size - 1, 0], \<bar>disk_size - 1 - head\<bar> + \<bar>0 - (disk_size - 1)\<bar>)"
  by (simp add: fcfs_def sstf_def scan_def c_scan_def sum_abs_diffs_def loop_abs_diffs_def)

theorem empty_requests_witness:
  "fcfs [] 50 = ([50], 0) \<and> sstf [] 50 = Inr ([50], 0)
   \<and> scan [] 50 200 = ([50, 199], 149) \<and> c_scan [] 50 200 = ([50, 199, 0], 348)"
  using empty_requests [of 50 200] by simp

section \<open>Derived metrics and the handlers\<close>

subsection \<open>True division\<close>

lemma py_truediv_Inr:
  "py_truediv a b = Inr q \<Longrightarrow> q = PyFloatQuot a b \<and> b \<noteq> 0"
  by (auto simp: py_truediv_def split: if_splits)

lemma py_truediv_ZeroDivisionError:
  "py_truediv a b = Inl ZeroDivisionError \<longleftrightarrow> b = 0"
  by (simp add: py_truediv_def)

lemma py_truediv_by_zero: "py_truediv a 0 = Inl ZeroDivisionError"
  by (simp add: py_truediv_def)

lemma py_truediv_zero: "b \<noteq> 0 \<Longrightarrow> py_truediv 0 b = Inr (PyFloatQuot 0 b)"
  by (simp add: py_truediv_def)

lemma py_truediv_small:
  assumes "b \<noteq> 0" and "\<bar>a\<bar> \<le> 1000000"
  shows "py_truediv a b = Inr (PyFloatQuot a b)"
proof -
  define c :: int where "c = 2 ^ 1024 - 2 ^ 970"
  have big: "1000000 < c" unfolding c_def by simp
  from assms(1) have "1 \<le> \<bar>b\<bar>" by simp
  with big have "c * 1 \<le> c * \<bar>b\<bar>"
    by (intro mult_left_mono) simp_all
  with big assms(2) have "\<not> c * \<bar>b\<bar> \<le> \<bar>a\<bar>"
    by linarith
  with assms(1) show ?thesis
    unfolding py_truediv_def c_def by (simp only: if_False)
qed


subsection \<open>List comprehensions that can raise\<close>

lemma py_list_comp_Inr:
  "py_list_comp f xs = Inr ys \<longleftrightarrow> list_all2 (\<lambda>x y. f x = Inr y) xs ys"
proof (induction xs arbitrary: ys)
  case Nil
  show ?case by auto
next
  case (Cons x xs)
  show ?case
  proof (cases "f x")
    case (Inl e)
    then show ?thesis by (auto simp: list_all2_Cons1)
  next
    case fx: (Inr y)
    show ?thesis
    proof (cases "py_list_comp f xs")
      case (Inl e)
      with Cons.IH have "\<And>zs. \<not> list_all2 (\<lambda>x y. f x = Inr y) xs zs"
        by (metis sum.distinct(1))
      with fx Inl show ?thesis by (auto simp: list_all2_Cons1)
    next
      case (Inr zs)
      with Cons.IH have "\<And>ws. list_all2 (\<lambda>x y. f x = Inr y) xs ws \<longleftrightarrow> ws = zs"
        by (metis sum.inject(2))
      with fx Inr show ?thesis by (auto simp: list_all2_Cons1)
    qed
  qed
qed

lemma py_list_comp_Inl:
  "py_list_comp f xs = Inl e \<Longrightarrow> \<exists>x \<in> set xs. f x = Inl e"
  by (induction xs) (auto split: sum.splits)

lemma py_list_comp_map:
  "py_list_comp f (map h xs) = py_list_comp (\<lambda>x. f (h x)) xs"
  by (induction xs) (simp_all cong: sum.case_cong)

lemma py_list_comp_cong:
  "(\<And>x. x \<in> set xs \<Longrightarrow> f x = g x) \<Longrightarrow> py_list_comp f xs = py_list_comp g xs"
  by (induction xs) (simp_all cong: sum.case_cong)

lemma py_list_comp_getitem:
  assumes "distinct (map fst d)"
  shows "py_list_comp (\<lambda>a. case py_getitem d a of Inl e \<Rightarrow> Inl e | Inr t \<Rightarrow> g t) (map fst d)
       = py_list_comp g (map snd d)"
proof -
  have "py_getitem d (fst p) = Inr (snd p)" if "p \<in> set d" for p
  proof -
    from that have "(fst p, snd p) \<in> set d" by simp
    then have "map_of d (fst p) = Some (snd p)"
      by (simp only: map_of_eq_Some_iff [OF assms])
    then show ?thesis by (simp add: py_getitem_def)
  qed
  then show ?thesis
    unfolding py_list_comp_map by (intro py_list_comp_cong) simp
qed

lemma list_all2_Inr_map:
  assumes "list_all2 (\<lambda>x y. f x = Inr y) xs ys" and "\<And>x y. f x = Inr y \<Longrightarrow> y = g x"
  shows "ys = map g xs"
  using assms by (induction xs ys rule: list_all2_induct) auto

lemma case_sum_Inl_cases:
  assumes "(case A of Inl e \<Rightarrow> Inl e
            | Inr a \<Rightarrow> (case B of Inl e \<Rightarrow> Inl e | Inr b \<Rightarrow> Inr (f a b))) = Inl err"
  shows "A = Inl err \<or> B = Inl err"
  using assms by (cases A; cases B) simp_all


subsection \<open>The comparison, column by column\<close>

lemma run_policies_algorithms:
  assumes "sstf request_list head = Inr (o2, t2)"
  shows "run_policies (algorithms disk_size) request_list head [] [] =
     Inr ([(''FCFS'', snd (fcfs request_list head)), (''SSTF'', t2),
           (''SCAN'', snd (scan request_list head disk_size)),
           (''C-SCAN'', snd (c_scan request_list head disk_size))],
          [(''FCFS'', fst (fcfs request_list head)), (''SSTF'', o2),
           (''SCAN'', fst (scan request_list head disk_size)),
           (''C-SCAN'', fst (c_scan request_list head disk_size))])"
  using assms by (simp add: algorithms_def split_beta)

lemma compare_all_columns:
  assumes "sstf request_list head = Inr (o2, t2)"
  shows "compare_all request_list head disk_size =
    (case py_list_comp (\<lambda>t. py_truediv t (int (length request_list)))
            [snd (fcfs request_list head), t2, snd (scan request_list head disk_size),
             snd (c_scan request_list head disk_size)] of
          Inl e \<Rightarrow> Inl e
        | Inr avgs \<Rightarrow>
            (case py_list_comp
                    (\<lambda>t. if t \<noteq> 0 then py_truediv (int (length request_list)) t
                         else Inr (PyInt 0))
                    [snd (fcfs request_list head), t2, snd (scan request_list head disk_size),
                     snd (c_scan request_list head disk_size)] of
               Inl e \<Rightarrow> Inl e
             | Inr throughputs \<Rightarrow>
                 Inr \<lparr>algorithm_col = [''FCFS'', ''SSTF'', ''SCAN'', ''C-SCAN''],
                      total_col =
                        [snd (fcfs request_list head), t2, snd (scan request_list head disk_size),
                         snd (c_scan request_list head disk_size)],
                      avg_col = avgs, throughput_col = throughputs,
                      orders_dict =
                        [(''FCFS'', fst (fcfs request_list head)), (''SSTF'', o2),
                         (''SCAN'', fst (scan request_list head disk_size)),
                         (''C-SCAN'', fst (c_scan request_list head disk_size))]\<rparr>))"
    (is "_ = ?rhs")
proof -
  let ?results = "[(''FCFS'', snd (fcfs request_list head)), (''SSTF'', t2),
           (''SCAN'', snd (scan request_list head disk_size)),
           (''C-SCAN'', snd (c_scan request_list head disk_size))]"
  have d: "distinct (map fst ?results)" by simp
  have "compare_all request_list head disk_size =
    (case py_list_comp
            (\<lambda>a. case py_getitem ?results a of
                   Inl e \<Rightarrow> Inl e
                 | Inr t \<Rightarrow> py_truediv t (int (length request_list)))
            (map fst ?results) of
       Inl e \<Rightarrow> Inl e
     | Inr avgs \<Rightarrow>
         (case py_list_comp
                 (\<lambda>a. case py_getitem ?results a of
                        Inl e \<Rightarrow> Inl e
                      | Inr t \<Rightarrow>
                          (if t \<noteq> 0 then py_truediv (int (length request_list)) t
                           else Inr (PyInt 0)))
                 (map fst ?results) of
            Inl e \<Rightarrow> Inl e
          | Inr throughputs \<Rightarrow>
              Inr \<lparr>algorithm_col = map fst ?results, total_col = map snd ?results,
                   avg_col = avgs, throughput_col = throughputs,
                   orders_dict =
                     [(''FCFS'', fst (fcfs request_list head)), (''SSTF'', o2),
                      (''SCAN'', fst (scan request_list head disk_size)),
                      (''C-SCAN'', fst (c_scan request_list head disk_size))]\<rparr>))"
    by (simp only: compare_all_def run_policies_algorithms [OF assms] sum.case prod.case)
  also have "\<dots> = ?rhs"
    unfolding py_list_comp_getitem [OF d]
    by (simp only: list.map fst_conv snd_conv cong: sum.case_cong)
  finally show ?thesis .
qed

lemma compare_all_Inr:
  assumes "compare_all request_list head disk_size = Inr res"
  shows "\<exists>order2 total2. sstf request_list head = Inr (order2, total2) \<and>
     algorithm_col res = [''FCFS'', ''SSTF'', ''SCAN'', ''C-SCAN''] \<and>
     total_col res = [snd (fcfs request_list head), total2,
                      snd (scan request_list head disk_size),
                      snd (c_scan request_list head disk_size)] \<and>
     avg_col res = map (\<lambda>t. PyFloatQuot t (int (length request_list))) (total_col res) \<and>
     throughput_col res =
       map (\<lambda>t. if t \<noteq> 0 then PyFloatQuot (int (length request_list)) t else PyInt 0)
         (total_col res) \<and>
     orders_dict res = [(''FCFS'', fst (fcfs request_list head)), (''SSTF'', order2),
                        (''SCAN'', fst (scan request_list head disk_size)),
                        (''C-SCAN'', fst (c_scan request_list head disk_size))]"
proof -
  from sstf_result [of request_list head] obtain order2 total2
    where s: "sstf request_list head = Inr (order2, total2)"
    by blast
  let ?totals = "[snd (fcfs request_list head), total2,
                  snd (scan request_list head disk_size),
                  snd (c_scan request_list head disk_size)]"
  let ?avg = "\<lambda>t. py_truediv t (int (length request_list))"
  let ?thr = "\<lambda>t. if t \<noteq> 0 then py_truediv (int (length request_list)) t else Inr (PyInt 0)"
  from assms obtain avgs throughputs
    where a: "py_list_comp ?avg ?totals = Inr avgs"
      and t: "py_list_comp ?thr ?totals = Inr throughputs"
      and r: "res = \<lparr>algorithm_col = [''FCFS'', ''SSTF'', ''SCAN'', ''C-SCAN''],
                     total_col = ?totals, avg_col = avgs, throughput_col = throughputs,
                     orders_dict =
                       [(''FCFS'', fst (fcfs request_list head)), (''SSTF'', order2),
                        (''SCAN'', fst (scan request_list head disk_size)),
                        (''C-SCAN'', fst (c_scan request_list head disk_size))]\<rparr>"
    unfolding compare_all_columns [OF s] by (auto split: sum.splits)
  have "avgs = map (\<lambda>t. PyFloatQuot t (int (length request_list))) ?totals"
    using a [unfolded py_list_comp_Inr]
    by (rule list_all2_Inr_map) (simp add: py_truediv_Inr)
  moreover have "throughputs =
      map (\<lambda>t. if t \<noteq> 0 then PyFloatQuot (int (length request_list)) t else PyInt 0) ?totals"
    using t [unfolded py_list_comp_Inr]
    by (rule list_all2_Inr_map) (auto simp: py_truediv_Inr split: if_splits)
  ultimately show ?thesis
    using s r by simp
qed

lemma compare_all_no_division_fault:
  assumes "request_list \<noteq> []"
  shows "compare_all request_list head disk_size \<noteq> Inl ZeroDivisionError"
proof
  assume z: "compare_all request_list head disk_size = Inl ZeroDivisionError"
  from sstf_result [of request_list head] obtain order2 total2
    where s: "sstf request_list head = Inr (order2, total2)"
    by blast
  let ?totals = "[snd (fcfs request_list head), total2,
                  snd (scan request_list head disk_size),
                  snd (c_scan request_list head disk_size)]"
  let ?avg = "\<lambda>t. py_truediv t (int (length request_list))"
  let ?thr = "\<lambda>t. if t \<noteq> 0 then py_truediv (int (length request_list)) t else Inr (PyInt 0)"
  from z [unfolded compare_all_columns [OF s]]
  have "py_list_comp ?avg ?totals = Inl ZeroDivisionError
      \<or> py_list_comp ?thr ?totals = Inl ZeroDivisionError"
    by (rule case_sum_Inl_cases)
  then show False
  proof
    assume "py_list_comp ?avg ?totals = Inl ZeroDivisionError"
    then obtain t where "?avg t = Inl ZeroDivisionError"
      by (blast dest: py_list_comp_Inl)
    with assms show False
      by (simp add: py_truediv_ZeroDivisionError)
  next
    assume "py_list_comp ?thr ?totals = Inl ZeroDivisionError"
    then obtain t where "?thr t = Inl ZeroDivisionError"
      by (blast dest: py_list_comp_Inl)
    then show False
      by (simp add: py_truediv_ZeroDivisionError split: if_splits)
  qed
qed


subsection \<open>The request text\<close>

















subsection \<open>No run has an empty request list\<close>







subsection \<open>Failure in a comparison run\<close>











subsection \<open>Zero total seek cost\<close>

text \<open>
  Claim C9. For every run on a non-empty request list whose total seek cost is 0 (for
  instance when every request equals the head), the handler returns its values, the
  throughput being the integer 0, and raises no division fault; in a comparison over a
  non-empty request list no division by zero is raised either, and every policy whose
  total is 0 has throughput 0.
\<close>

theorem zero_seek_cost_throughput:
  assumes "requests \<noteq> []"
  shows "(py_getitem (algorithms disk_size) algo = Inr selected_algo
          \<and> selected_algo requests head = Inr (order, 0) \<longrightarrow>
            run_simulation algo requests head disk_size
              = Inr (order, 0, PyFloatQuot 0 (int (length requests)), PyInt 0))
     \<and> compare_all requests head disk_size \<noteq> Inl ZeroDivisionError
     \<and> (\<forall>res. compare_all requests head disk_size = Inr res \<longrightarrow>
          list_all2 (\<lambda>total throughput. total = 0 \<longrightarrow> throughput = PyInt 0)
            (total_col res) (throughput_col res))"
proof (intro conjI allI impI)
  assume "py_getitem (algorithms disk_size) algo = Inr selected_algo
          \<and> selected_algo requests head = Inr (order, 0)"
  with assms show "run_simulation algo requests head disk_size
              = Inr (order, 0, PyFloatQuot 0 (int (length requests)), PyInt 0)"
    by (simp add: run_simulation_def py_truediv_zero)
next
  show "compare_all requests head disk_size \<noteq> Inl ZeroDivisionError"
    using assms by (rule compare_all_no_division_fault)
next
  fix res assume "compare_all requests head disk_size = Inr res"
  from compare_all_Inr [OF this]
  have "throughput_col res =
       map (\<lambda>t. if t \<noteq> 0 then PyFloatQuot (int (length requests)) t else PyInt 0)
         (total_col res)"
    by blast
  then show "list_all2 (\<lambda>total throughput. total = 0 \<longrightarrow> throughput = PyInt 0)
            (total_col res) (throughput_col res)"
    by (simp add: list_all2_conv_all_nth)
qed

theorem zero_seek_cost_throughput_witness:
  "[50, 50] \<noteq> ([] :: int list)
   \<and> py_getitem (algorithms 200) ''FCFS'' = Inr (\<lambda>r h. Inr (fcfs r h))
   \<and> fcfs [50, 50] 50 = ([50, 50, 50], 0)
   \<and> run_simulation ''FCFS'' [50, 50] 50 200 = Inr ([50, 50, 50], 0, PyFloatQuot 0 2, PyInt 0)
   \<and> compare_all [50, 50] 50 200 \<noteq> Inl ZeroDivisionError
   \<and> compare_all [50, 50] 50 200 =
       Inr \<lparr>algorithm_col = [''FCFS'', ''SSTF'', ''SCAN'', ''C-SCAN''],
            total_col = [0, 0, 149, 348],
            avg_col = [PyFloatQuot 0 2, PyFloatQuot 0 2, PyFloatQuot 149 2, PyFloatQuot 348 2],
            throughput_col = [PyInt 0, PyInt 0, PyFloatQuot 2 149, PyFloatQuot 2 348],
            orders_dict =
              [(''FCFS'', [50, 50, 50]), (''SSTF'', [50, 50, 50]),
               (''SCAN'', [50, 50, 50, 199]), (''C-SCAN'', [50, 50, 50, 199, 0])]\<rparr>"
proof -
  let ?R = "[50, 50] :: int list"
  have ne: "?R \<noteq> []" by simp
  have g: "py_getitem (algorithms 200) ''FCFS'' = Inr (\<lambda>r h. Inr (fcfs r h))"
    by (simp add: py_getitem_def algorithms_def)
  have f: "fcfs ?R 50 = ([50, 50, 50], 0)"
    by (simp add: fcfs_def sum_abs_diffs_def)
  have s: "sstf ?R 50 = Inr ([50, 50, 50], 0)"
    by (simp add: sstf_def py_remove_def sum_abs_diffs_def)
  have sc: "scan ?R 50 200 = ([50, 50, 50, 199], 149)"
    by (simp add: scan_def sum_abs_diffs_def)
  have cs: "c_scan ?R 50 200 = ([50, 50, 50, 199, 0], 348)"
    by (simp add: c_scan_def loop_abs_diffs_def)
  have v: "compare_all ?R 50 200 =
       Inr \<lparr>algorithm_col = [''FCFS'', ''SSTF'', ''SCAN'', ''C-SCAN''],
            total_col = [0, 0, 149, 348],
            avg_col = [PyFloatQuot 0 2, PyFloatQuot 0 2, PyFloatQuot 149 2, PyFloatQuot 348 2],
            throughput_col = [PyInt 0, PyInt 0, PyFloatQuot 2 149, PyFloatQuot 2 348],
            orders_dict =
              [(''FCFS'', [50, 50, 50]), (''SSTF'', [50, 50, 50]),
               (''SCAN'', [50, 50, 50, 199]), (''C-SCAN'', [50, 50, 50, 199, 0])]\<rparr>"
    unfolding compare_all_columns [OF s] f sc cs
    by (simp add: py_truediv_small)
  from zero_seek_cost_throughput [OF ne, of 200 "''FCFS''" "\<lambda>r h. Inr (fcfs r h)" 50
      "[50, 50, 50]"] g f
  have "run_simulation ''FCFS'' ?R 50 200 = Inr ([50, 50, 50], 0, PyFloatQuot 0 2, PyInt 0)"
    and "compare_all ?R 50 200 \<noteq> Inl ZeroDivisionError"
    by simp_all
  with ne g f v show ?thesis
    by blast
qed

section \<open>The caller's list\<close>

lemma sstf_loop_nonempty:
  assumes "reqs \<noteq> []" and "py_min (\<lambda>x. \<bar>x - current\<bar>) reqs = Inr nearest"
    and "nearest \<in> set reqs"
  shows "sstf_loop reqs order current
           = sstf_loop (remove1 nearest reqs) (order @ [nearest]) nearest"
  using assms by (simp add: sstf_loop.simps [of reqs] py_remove_def)

lemma sstf_loop_st_agrees:
  assumes "reqs < length s" and "order < length s" and "reqs \<noteq> order"
  shows "\<exists>out. sstf_loop (s ! reqs) (s ! order) current = Inr (s ! order @ out) \<and>
           sstf_loop_st s reqs order current
             = Some (Inr (s[order := s ! order @ out, reqs := []]))"
  using assms
proof (induction n \<equiv> "length (s ! reqs)" arbitrary: s current)
  case 0
  then have e: "s ! reqs = []" by simp
  then have "s[order := s ! order @ [], reqs := []] = s"
    by (metis append_Nil2 list_update_id)
  with e show ?case
    by (intro exI [of _ "[]"]) (simp add: sstf_loop_st.simps [of s] sstf_loop.simps [of "[]"])
next
  case (Suc n)
  let ?rs = "s ! reqs"
  let ?key = "\<lambda>x. \<bar>x - current\<bar>"
  from Suc.hyps(2) have ne: "?rs \<noteq> []" by auto
  from py_min_first [OF ne, of ?key] obtain i where i: "i < length ?rs"
    and pm: "py_min ?key ?rs = Inr (?rs ! i)"
    by blast
  let ?v = "?rs ! i"
  have mem: "?v \<in> set ?rs" using i by simp
  let ?s1 = "py_append_st s order ?v"
  let ?s2 = "?s1[reqs := remove1 ?v ?rs]"
  have s1r: "?s1 ! reqs = ?rs"
    using Suc.prems by (simp add: py_append_st_def)
  have rm: "py_remove_st ?s1 reqs ?v = Inr ?s2"
    using mem s1r by (simp add: py_remove_st_def)
  have s2r: "?s2 ! reqs = remove1 ?v ?rs"
    using Suc.prems by (simp add: py_append_st_def)
  have s2o: "?s2 ! order = s ! order @ [?v]"
    using Suc.prems by (simp add: py_append_st_def)
  have len: "n = length (?s2 ! reqs)"
    using Suc.hyps(2) mem by (simp add: s2r length_remove1)
  have bounds: "reqs < length ?s2" "order < length ?s2"
    using Suc.prems by (simp_all add: py_append_st_def)
  from Suc.hyps(1) [OF len bounds Suc.prems(3), of ?v] obtain out
    where pure: "sstf_loop (remove1 ?v ?rs) (s ! order @ [?v]) ?v
                   = Inr ((s ! order @ [?v]) @ out)"
      and st: "sstf_loop_st ?s2 reqs order ?v
                 = Some (Inr (?s2[order := (s ! order @ [?v]) @ out, reqs := []]))"
    unfolding s2r s2o by blast
  have final: "?s2[order := (s ! order @ [?v]) @ out, reqs := []]
      = s[order := s ! order @ ?v # out, reqs := []]"
    using Suc.prems(3)
    by (simp add: py_append_st_def list_update_swap [of reqs order])
  have "sstf_loop ?rs (s ! order) current = Inr (s ! order @ ?v # out)"
    using sstf_loop_nonempty [OF ne pm mem, of "s ! order"] pure by simp
  moreover have "sstf_loop_st s reqs order current
      = Some (Inr (s[order := s ! order @ ?v # out, reqs := []]))"
    using ne pm rm st final by (simp add: sstf_loop_st.simps [of s])
  ultimately show ?case by blast
qed

lemma fcfs_st_frame:
  "\<exists>order total s'. fcfs_st s requests head = ((order, total), s') \<and>
     take (length s) s' = s \<and> length s \<le> order \<and>
     (s' ! order, total) = fcfs (s ! requests) head"
  by (simp add: fcfs_st_def new_list_def fcfs_def Let_def)

lemma sstf_st_frame:
  "\<exists>order total s'. sstf_st s requests head = Some (Inr ((order, total), s')) \<and>
     take (length s) s' = s \<and> length s \<le> order \<and>
     sstf (s ! requests) head = Inr (s' ! order, total)"
proof -
  let ?reqs = "length s"
  let ?order = "Suc (length s)"
  let ?s2 = "(s @ [s ! requests]) @ [[head]]"
  have b: "?reqs < length ?s2" "?order < length ?s2" "?reqs \<noteq> ?order"
    by simp_all
  have r: "?s2 ! ?reqs = s ! requests" and o: "?s2 ! ?order = [head]"
    by (simp_all add: nth_append)
  from sstf_loop_st_agrees [OF b, of head] obtain out
    where pure: "sstf_loop (s ! requests) [head] head = Inr ([head] @ out)"
      and st: "sstf_loop_st ?s2 ?reqs ?order head
                 = Some (Inr (?s2[?order := [head] @ out, ?reqs := []]))"
    unfolding r o by blast
  let ?s3 = "?s2[?order := [head] @ out, ?reqs := []]"
  have "sstf_st s requests head
      = Some (Inr ((?order, sum_abs_diffs (?s3 ! ?order)), ?s3))"
    using st by (simp add: sstf_st_def new_list_def)
  moreover have "take (length s) ?s3 = s"
    by simp
  moreover have "?s3 ! ?order = [head] @ out"
    by simp
  then have "sstf (s ! requests) head = Inr (?s3 ! ?order, sum_abs_diffs (?s3 ! ?order))"
    using pure by (simp add: sstf_def)
  ultimately show ?thesis
    by (intro exI [of _ ?order] exI [of _ "sum_abs_diffs (?s3 ! ?order)"] exI [of _ ?s3]) simp
qed

lemma scan_st_frame:
  assumes "requests < length s"
  shows "\<exists>order total s'. scan_st s requests head disk_size = ((order, total), s') \<and>
     take (length s) s' = s \<and> length s \<le> order \<and>
     (s' ! order, total) = scan (s ! requests) head disk_size"
  using assms by (simp add: scan_st_def new_list_def scan_def Let_def nth_append)

lemma c_scan_st_frame:
  assumes "requests < length s"
  shows "\<exists>order total s'. c_scan_st s requests head disk_size = ((order, total), s') \<and>
     take (length s) s' = s \<and> length s \<le> order \<and>
     (s' ! order, total) = c_scan (s ! requests) head disk_size"
  using assms by (simp add: c_scan_st_def new_list_def c_scan_def Let_def nth_append)


text \<open>
  Claim C10. For every policy call on a store in which \<open>requests\<close> is the address of
  the caller's list: the call returns, every list object that existed before the call is
  unchanged after it (the caller's request list in particular), and the visit order is
  a list object created by the call. The list SSTF removes items from is the copy it
  made, a new object too. The values returned are those of the policies on list values.
\<close>

theorem policies_leave_requests_unchanged:
  assumes "requests < length s"
  shows "(\<exists>order total s'. fcfs_st s requests head = ((order, total), s') \<and>
            take (length s) s' = s \<and> s' ! requests = s ! requests \<and> length s \<le> order \<and>
            (s' ! order, total) = fcfs (s ! requests) head)
       \<and> (\<exists>order total s'. sstf_st s requests head = Some (Inr ((order, total), s')) \<and>
            take (length s) s' = s \<and> s' ! requests = s ! requests \<and> length s \<le> order \<and>
            sstf (s ! requests) head = Inr (s' ! order, total))
       \<and> (\<exists>order total s'. scan_st s requests head disk_size = ((order, total), s') \<and>
            take (length s) s' = s \<and> s' ! requests = s ! requests \<and> length s \<le> order \<and>
            (s' ! order, total) = scan (s ! requests) head disk_size)
       \<and> (\<exists>order total s'. c_scan_st s requests head disk_size = ((order, total), s') \<and>
            take (length s) s' = s \<and> s' ! requests = s ! requests \<and> length s \<le> order \<and>
            (s' ! order, total) = c_scan (s ! requests) head disk_size)"
proof -
  have keep: "s' ! requests = s ! requests" if "take (length s) s' = s" for s' :: store
    using assms that by (metis nth_take)
  show ?thesis
    using fcfs_st_frame [of s requests head] sstf_st_frame [of s requests head]
      scan_st_frame [OF assms, of head disk_size] c_scan_st_frame [OF assms, of head disk_size]
      keep
    by (intro conjI) metis+
qed

theorem policies_leave_requests_unchanged_witness:
  "(0::nat) < length [[82, 170, 43 :: int]]
   \<and> fcfs_st [[82, 170, 43]] 0 50 = ((1, 247), [[82, 170, 43], [50, 82, 170, 43]])
   \<and> sstf_st [[82, 170, 43]] 0 50
       = Some (Inr ((2, 134), [[82, 170, 43], [], [50, 43, 82, 170]]))
   \<and> scan_st [[82, 170, 43]] 0 50 200
       = ((3, 305), [[82, 170, 43], [43], [82, 170], [50, 82, 170, 199, 43]])
   \<and> c_scan_st [[82, 170, 43]] 0 50 200
       = ((3, 391), [[82, 170, 43], [43], [82, 170], [50, 82, 170, 199, 0, 43]])"
proof -
  have h: "(0::nat) < length [[82, 170, 43 :: int]]" by simp
  note policies_leave_requests_unchanged [OF h, of 50 200]
  then show ?thesis
    using h
    by (simp add: fcfs_st_def sstf_st_def scan_st_def c_scan_st_def new_list_def
        sstf_loop_st.simps py_append_st_def py_remove_st_def sum_abs_diffs_def
        loop_abs_diffs_def)
qed

end
